theory Spec2Isabelle
  imports Main "HOL-Library.Extended_Nat"
begin

section \<open>Strings and errors\<close>

text \<open>
  Python strings are modelled as \<^typ>\<open>string\<close>; a character is a code point below 256.
  \<open>str.strip()\<close> without arguments removes leading and trailing whitespace, where
  whitespace is what \<open>str.isspace\<close> accepts: on this range the code points 9 to 13,
  28 to 32, 133 and 160.
\<close>

definition isspace :: "char \<Rightarrow> bool" where
  "isspace c = (c \<in> set [CHR 0x09, CHR 0x0A, CHR 0x0B, CHR 0x0C, CHR 0x0D, CHR 0x1C,
                            CHR 0x1D, CHR 0x1E, CHR 0x1F, CHR 0x20, CHR 0x85, CHR 0xA0])"

definition strip :: "string \<Rightarrow> string" where
  "strip s = rev (dropWhile isspace (rev (dropWhile isspace s)))"

text \<open>
  The exceptions the modelled code can raise: a dictionary lookup of a missing key, a
  method call on \<open>None\<close>, and \<open>input()\<close> at the end of the input.
\<close>

datatype error = KeyError string | AttributeError | EOFError

definition bind_err :: "error + 'a \<Rightarrow> ('a \<Rightarrow> error + 'b) \<Rightarrow> error + 'b" where
  "bind_err m f = (case m of Inl e \<Rightarrow> Inl e | Inr x \<Rightarrow> f x)"

section \<open>Tree nodes\<close>

text \<open>
  Class \<open>TreeNode\<close> has the fields \<open>question\<close>, \<open>left\<close>, \<open>right\<close> and \<open>answers\<close>.
  The type parameter is the type of a child reference: an address when the node lives in
  the object store, a subtree when a freshly built tree is taken as a value. \<open>None\<close> is
  Python's \<open>None\<close>.
\<close>

datatype 'r TreeNode =
  TreeNode (question: "string option") (left: "'r option") (right: "'r option")
    (answers: "string list")

text \<open>
  The constructor \<open>__init__\<close>: the \<open>answers\<close> argument is optional, and
  \<open>answers if answers else []\<close> stores the empty list for \<open>None\<close> and for \<open>[]\<close>.
\<close>

definition init_TreeNode ::
  "string option \<Rightarrow> 'r option \<Rightarrow> 'r option \<Rightarrow> string list option \<Rightarrow> 'r TreeNode" where
  "init_TreeNode q l r a =
     TreeNode q l r (case a of None \<Rightarrow> [] | Some xs \<Rightarrow> if xs \<noteq> [] then xs else [])"

text \<open>\<open>is_leaf\<close> returns \<open>bool(self.answers)\<close>: the truth value of a list is its non-emptiness.\<close>

definition is_leaf :: "'r TreeNode \<Rightarrow> bool" where
  "is_leaf n = (answers n \<noteq> [])"

text \<open>A tree as a value: every child reference is the child itself.\<close>

datatype tree = Tree (node_of: "tree TreeNode")

section \<open>Rows and comprehensions\<close>

text \<open>
  A row is a \<open>dict\<close> from column names to raw string values. \<open>row[col]\<close> raises
  \<open>KeyError\<close> when the column is missing.
\<close>

type_synonym row = "string \<rightharpoonup> string"

definition getitem :: "row \<Rightarrow> string \<Rightarrow> error + string" where
  "getitem r col = (case r col of None \<Rightarrow> Inl (KeyError col) | Some v \<Rightarrow> Inr v)"

text \<open>\<open>[f(x) for x in xs]\<close>: elements are evaluated in order, the first raise ends it.\<close>

fun map_err :: "('a \<Rightarrow> error + 'b) \<Rightarrow> 'a list \<Rightarrow> error + 'b list" where
  "map_err f [] = Inr []"
| "map_err f (x # xs) = bind_err (f x) (\<lambda>y. bind_err (map_err f xs) (\<lambda>ys. Inr (y # ys)))"

text \<open>\<open>[x for x in xs if p(x)]\<close>.\<close>

fun filter_err :: "('a \<Rightarrow> error + bool) \<Rightarrow> 'a list \<Rightarrow> error + 'a list" where
  "filter_err p [] = Inr []"
| "filter_err p (x # xs) =
     bind_err (p x) (\<lambda>b. bind_err (filter_err p xs) (\<lambda>ys. Inr (if b then x # ys else ys)))"

text \<open>\<open>all(p(x) for x in xs)\<close> over a generator: it stops at the first false element.\<close>

fun all_err :: "('a \<Rightarrow> error + bool) \<Rightarrow> 'a list \<Rightarrow> error + bool" where
  "all_err p [] = Inr True"
| "all_err p (x # xs) = bind_err (p x) (\<lambda>b. if b then all_err p xs else Inr False)"

text \<open>The test \<open>row[col].strip() == v\<close>.\<close>

definition strips_to :: "string \<Rightarrow> string \<Rightarrow> row \<Rightarrow> error + bool" where
  "strips_to col v r = bind_err (getitem r col) (\<lambda>x. Inr (strip x = v))"

text \<open>\<open>sum(1 for row in rows if row[col].strip() == v)\<close>.\<close>

definition count_rows :: "row list \<Rightarrow> string \<Rightarrow> string \<Rightarrow> error + nat" where
  "count_rows rows col v = bind_err (filter_err (strips_to col v) rows) (\<lambda>ys. Inr (length ys))"

section \<open>all\_same\_values\<close>

text \<open>
  The values of the first row are collected first; then every later row is compared
  with them column by column. The outer \<open>all\<close> receives a list, so every row is
  evaluated; the inner one receives a generator.
\<close>

definition all_same_values :: "row list \<Rightarrow> string list \<Rightarrow> error + bool" where
  "all_same_values rows col_names =
     (case rows of
        [] \<Rightarrow> Inr True
      | first_row # rest \<Rightarrow>
          bind_err (map_err (getitem first_row) col_names) (\<lambda>first_row_values.
          bind_err (map_err (\<lambda>r. all_err (\<lambda>(i, col).
                        bind_err (getitem r col) (\<lambda>x. Inr (x = first_row_values ! i)))
                      (List.enumerate 0 col_names)) rest) (\<lambda>bs.
          Inr (list_all (\<lambda>b. b) bs))))"

section \<open>best\_split\<close>

text \<open>
  The loop of \<open>best_split\<close> with its two running variables. \<open>best_balance\<close> starts at
  \<open>float('inf')\<close>, modelled by \<open>\<infinity>\<close> of \<^typ>\<open>enat\<close>; a balance is the absolute value of a
  difference of two counts.
\<close>

fun best_split_loop ::
  "row list \<Rightarrow> string list \<Rightarrow> string option \<Rightarrow> enat \<Rightarrow> error + string option" where
  "best_split_loop rows [] best_classification best_balance = Inr best_classification"
| "best_split_loop rows (classification # rest) best_classification best_balance =
     bind_err (count_rows rows classification ''0'') (\<lambda>count_0.
     bind_err (count_rows rows classification ''1'') (\<lambda>count_1.
       let balance = nat \<bar>int count_0 - int count_1\<bar> in
       if 0 < count_0 \<and> count_0 < length rows \<and> 0 < count_1 \<and> count_1 < length rows
          \<and> enat balance < best_balance
       then best_split_loop rows rest (Some classification) (enat balance)
       else best_split_loop rows rest best_classification best_balance))"

definition best_split :: "row list \<Rightarrow> string list \<Rightarrow> error + string option" where
  "best_split rows classifications = best_split_loop rows classifications None \<infinity>"

section \<open>Vocabulary of the statements\<close>

text \<open>
  Every row holds every column of a list: what rows read from a table with these
  columns in its header satisfy.
\<close>

definition has_columns :: "row list \<Rightarrow> string list \<Rightarrow> bool" where
  "has_columns rows cols = list_all (\<lambda>r. list_all (\<lambda>c. r c \<noteq> None) cols) rows"

text \<open>The trimmed value of a column, the two buckets of a feature, and its imbalance.\<close>

definition trimmed :: "row \<Rightarrow> string \<Rightarrow> string option" where
  "trimmed r col = map_option strip (r col)"

definition bucket :: "row list \<Rightarrow> string \<Rightarrow> string \<Rightarrow> row list" where
  "bucket rows col v = filter (\<lambda>r. trimmed r col = Some v) rows"

definition usable :: "row list \<Rightarrow> string \<Rightarrow> bool" where
  "usable rows col =
     (0 < length (bucket rows col ''0'') \<and> length (bucket rows col ''0'') < length rows \<and>
      0 < length (bucket rows col ''1'') \<and> length (bucket rows col ''1'') < length rows)"

definition imbalance :: "row list \<Rightarrow> string \<Rightarrow> nat" where
  "imbalance rows col =
     nat \<bar>int (length (bucket rows col ''0'')) - int (length (bucket rows col ''1''))\<bar>"

section \<open>What best\_split returns\<close>

text \<open>
  When every row holds the column, the comprehension over a column is a plain
  \<open>filter\<close>, the counts are the bucket sizes, and a step of the loop is a comparison of
  imbalances. From this the result of the whole loop is described by induction on the
  candidate list, for any running best and running balance.
\<close>

lemma bind_err_Inr [simp]: "bind_err (Inr x) f = f x"
  by (simp add: bind_err_def)

lemma bind_err_Inl [simp]: "bind_err (Inl e) f = Inl e"
  by (simp add: bind_err_def)

lemma has_columns_iff: "has_columns rows cols \<longleftrightarrow> (\<forall>r\<in>set rows. \<forall>c\<in>set cols. r c \<noteq> None)"
  by (simp add: has_columns_def list_all_iff)

lemma filter_err_strips_to:
  "\<forall>r\<in>set rows. r col \<noteq> None \<Longrightarrow> filter_err (strips_to col v) rows = Inr (bucket rows col v)"
  by (induction rows) (auto simp: strips_to_def getitem_def bucket_def trimmed_def)

lemma count_rows_ok:
  "\<forall>r\<in>set rows. r col \<noteq> None \<Longrightarrow> count_rows rows col v = Inr (length (bucket rows col v))"
  by (simp add: count_rows_def filter_err_strips_to)

lemma loop_Cons:
  assumes "\<forall>r\<in>set rows. r c \<noteq> None"
  shows "best_split_loop rows (c # cs) best bal =
     (if usable rows c \<and> enat (imbalance rows c) < bal
      then best_split_loop rows cs (Some c) (enat (imbalance rows c))
      else best_split_loop rows cs best bal)"
proof -
  have c0: "count_rows rows c ''0'' = Inr (length (bucket rows c ''0''))"
    and c1: "count_rows rows c ''1'' = Inr (length (bucket rows c ''1''))"
    using assms by (rule count_rows_ok)+
  show ?thesis
    by (simp add: c0 c1 usable_def imbalance_def Let_def)
qed

lemma best_split_loop_spec:
  assumes "has_columns rows cs"
  shows "(best_split_loop rows cs best bal = Inr best \<and>
          (\<forall>c\<in>set cs. usable rows c \<longrightarrow> bal \<le> enat (imbalance rows c)))
       \<or> (\<exists>pre f post. cs = pre @ f # post \<and> best_split_loop rows cs best bal = Inr (Some f) \<and>
            usable rows f \<and> enat (imbalance rows f) < bal \<and>
            (\<forall>c\<in>set pre. usable rows c \<longrightarrow> imbalance rows f < imbalance rows c) \<and>
            (\<forall>c\<in>set post. usable rows c \<longrightarrow> imbalance rows f \<le> imbalance rows c))"
  using assms
proof (induction cs arbitrary: best bal)
  case Nil
  then show ?case by simp
next
  case (Cons c cs)
  from Cons.prems have hc: "\<forall>r\<in>set rows. r c \<noteq> None" and hcs: "has_columns rows cs"
    by (auto simp: has_columns_iff)
  show ?case
  proof (cases "usable rows c \<and> enat (imbalance rows c) < bal")
    case True
    then have step: "best_split_loop rows (c # cs) best bal =
        best_split_loop rows cs (Some c) (enat (imbalance rows c))"
      by (simp add: loop_Cons [OF hc] del: best_split_loop.simps)
    from Cons.IH [OF hcs, of "Some c" "enat (imbalance rows c)"]
    show ?thesis
    proof (elim disjE conjE exE)
      assume a: "best_split_loop rows cs (Some c) (enat (imbalance rows c)) = Inr (Some c)"
        and b: "\<forall>x\<in>set cs. usable rows x \<longrightarrow> enat (imbalance rows c) \<le> enat (imbalance rows x)"
      have "c # cs = [] @ c # cs" by simp
      with a b True step show ?thesis by (intro disjI2 exI [of _ "[]"] exI [of _ c] exI [of _ cs]) auto
    next
      fix pre f post
      assume a: "cs = pre @ f # post"
        "best_split_loop rows cs (Some c) (enat (imbalance rows c)) = Inr (Some f)"
        "usable rows f" "enat (imbalance rows f) < enat (imbalance rows c)"
        "\<forall>x\<in>set pre. usable rows x \<longrightarrow> imbalance rows f < imbalance rows x"
        "\<forall>x\<in>set post. usable rows x \<longrightarrow> imbalance rows f \<le> imbalance rows x"
      from a(4) True have "enat (imbalance rows f) < bal" by (meson less_trans)
      with a step show ?thesis
        by (intro disjI2 exI [of _ "c # pre"] exI [of _ f] exI [of _ post]) auto
    qed
  next
    case False
    then have step: "best_split_loop rows (c # cs) best bal = best_split_loop rows cs best bal"
      by (subst loop_Cons [OF hc]) auto
    from False have cbal: "usable rows c \<longrightarrow> bal \<le> enat (imbalance rows c)" by auto
    from Cons.IH [OF hcs, of best bal]
    show ?thesis
    proof (elim disjE conjE exE)
      assume "best_split_loop rows cs best bal = Inr best"
        "\<forall>x\<in>set cs. usable rows x \<longrightarrow> bal \<le> enat (imbalance rows x)"
      with step cbal show ?thesis by auto
    next
      fix pre f post
      assume a: "cs = pre @ f # post"
        "best_split_loop rows cs best bal = Inr (Some f)"
        "usable rows f" "enat (imbalance rows f) < bal"
        "\<forall>x\<in>set pre. usable rows x \<longrightarrow> imbalance rows f < imbalance rows x"
        "\<forall>x\<in>set post. usable rows x \<longrightarrow> imbalance rows f \<le> imbalance rows x"
      from a(4) cbal have "usable rows c \<longrightarrow> imbalance rows f < imbalance rows c"
        by (metis enat_ord_simps(2) less_le_trans)
      with a step show ?thesis
        by (intro disjI2 exI [of _ "c # pre"] exI [of _ f] exI [of _ post]) auto
    qed
  qed
qed

text \<open>
  Conversely, a loop that returned has read every candidate column of every row, so a
  returned feature is a usable member of the candidate list.
\<close>

lemma bind_err_cong [fundef_cong]:
  "m = m' \<Longrightarrow> (\<And>x. m' = Inr x \<Longrightarrow> f x = f' x) \<Longrightarrow> bind_err m f = bind_err m' f'"
  by (cases m') (simp_all add: bind_err_def)

lemma bind_err_eq_Inr: "bind_err m f = Inr y \<longleftrightarrow> (\<exists>x. m = Inr x \<and> f x = Inr y)"
  by (cases m) simp_all

lemma strips_to_Inr: "strips_to col v r = Inr b \<Longrightarrow> r col \<noteq> None"
  by (cases "r col") (simp_all add: strips_to_def getitem_def)

lemma filter_err_has_key:
  "filter_err (strips_to col v) rows = Inr ys \<Longrightarrow> \<forall>r\<in>set rows. r col \<noteq> None"
proof (induction rows arbitrary: ys)
  case Nil
  then show ?case by simp
next
  case (Cons r rows)
  from Cons.prems obtain b ys' where "strips_to col v r = Inr b"
    "filter_err (strips_to col v) rows = Inr ys'"
    by (auto simp: bind_err_eq_Inr)
  then show ?case using Cons.IH strips_to_Inr by auto
qed

lemma count_rows_has_key:
  "count_rows rows col v = Inr n \<Longrightarrow> \<forall>r\<in>set rows. r col \<noteq> None"
  unfolding count_rows_def bind_err_eq_Inr using filter_err_has_key by blast

lemma best_split_loop_has_columns:
  "best_split_loop rows cs best bal = Inr x \<Longrightarrow> has_columns rows cs"
proof (induction cs arbitrary: best bal)
  case Nil
  then show ?case by (simp add: has_columns_iff)
next
  case (Cons c cs)
  from Cons.prems obtain n where n: "count_rows rows c ''0'' = Inr n"
    by (auto simp: bind_err_eq_Inr)
  then have hc: "\<forall>r\<in>set rows. r c \<noteq> None" by (rule count_rows_has_key)
  from Cons.prems have "\<exists>b' bal'. best_split_loop rows cs b' bal' = Inr x"
    by (auto simp: loop_Cons [OF hc] simp del: best_split_loop.simps split: if_splits)
  then have "has_columns rows cs" using Cons.IH by blast
  with hc show ?case by (auto simp: has_columns_iff)
qed

lemma best_split_Some:
  assumes "best_split rows cs = Inr (Some b)"
  shows "b \<in> set cs \<and> usable rows b \<and> has_columns rows cs"
proof -
  have hc: "has_columns rows cs"
    using assms unfolding best_split_def by (rule best_split_loop_has_columns)
  from best_split_loop_spec [OF hc, of None \<infinity>] assms
  show ?thesis using hc by (auto simp: best_split_def)
qed


section \<open>build\_tree\<close>

text \<open>The leaf \<open>TreeNode(answers=[row[label_col] for row in rows])\<close>.\<close>

definition leaf_of :: "row list \<Rightarrow> string \<Rightarrow> error + tree" where
  "leaf_of rows label_col =
     bind_err (map_err (\<lambda>r. getitem r label_col) rows) (\<lambda>labels.
     Inr (Tree (init_TreeNode None None None (Some labels))))"

text \<open>
  \<open>build_tree\<close>, in the order of the source: the empty row list, rows that are all the
  same, then \<open>best_split\<close>. The test \<open>not classifications or not best_classification\<close> is
  written by cases on \<open>best_classification\<close>: \<open>None\<close> and the empty string are the
  values whose truth value is false. Otherwise the two comprehensions, the remaining
  candidates, the left child, the right child, and the node. The recursion terminates
  because the chosen feature is a member of the candidate list and is filtered out.
\<close>

function build_tree :: "row list \<Rightarrow> string list \<Rightarrow> string \<Rightarrow> error + tree" where
  "build_tree rows classifications label_col =
     (if rows = [] then Inr (Tree (init_TreeNode None None None (Some [])))
      else
        bind_err (all_same_values rows (label_col # classifications)) (\<lambda>same.
        if same then leaf_of rows label_col
        else
          bind_err (best_split rows classifications) (\<lambda>best_classification.
          case best_classification of
            None \<Rightarrow> leaf_of rows label_col
          | Some b \<Rightarrow>
              if classifications = [] \<or> b = [] then leaf_of rows label_col
              else
                bind_err (filter_err (strips_to b ''0'') rows) (\<lambda>left_split.
                bind_err (filter_err (strips_to b ''1'') rows) (\<lambda>right_split.
                let remaining_classifications = filter (\<lambda>c. c \<noteq> b) classifications in
                bind_err (build_tree left_split remaining_classifications label_col) (\<lambda>left_child.
                bind_err (build_tree right_split remaining_classifications label_col) (\<lambda>right_child.
                Inr (Tree (init_TreeNode (Some b) (Some left_child) (Some right_child) None)))))))))"
  by pat_completeness auto
termination
proof (relation "measure (\<lambda>(rows, classifications, label_col). length classifications)")
  show "wf (measure (\<lambda>(rows, classifications, label_col). length classifications))" by simp
next
  fix rows :: "row list" and classifications label_col same best b l r rem
  assume "best_split rows classifications = Inr best" "best = Some b"
    "rem = filter (\<lambda>c. c \<noteq> b) classifications"
  then have "b \<in> set classifications" using best_split_Some by blast
  then have "length (filter (\<lambda>c. c \<noteq> b) classifications) < length classifications"
    by (simp add: length_filter_less)
  then show "((l, rem, label_col), rows, classifications, label_col)
      \<in> measure (\<lambda>(rows, classifications, label_col). length classifications)"
    using \<open>rem = _\<close> by simp
  then show "((r, rem, label_col), rows, classifications, label_col)
      \<in> measure (\<lambda>(rows, classifications, label_col). length classifications)"
    by simp
qed

declare build_tree.simps [simp del]

section \<open>Measures on trees\<close>

text \<open>
  The depth of a tree is the number of nodes on a longest path from the root. A path
  is listed by the \<open>question\<close> fields of its nodes that have a child, from the root
  down; the leaves are the nodes without children.
\<close>

fun depth :: "tree \<Rightarrow> nat" where
  "depth (Tree (TreeNode q l r a)) =
     Suc (max (case l of None \<Rightarrow> 0 | Some t \<Rightarrow> depth t) (case r of None \<Rightarrow> 0 | Some t \<Rightarrow> depth t))"

fun paths :: "tree \<Rightarrow> string option list list" where
  "paths (Tree (TreeNode q l r a)) =
     (if l = None \<and> r = None then [[]]
      else map ((#) q) ((case l of None \<Rightarrow> [] | Some t \<Rightarrow> paths t) @
                        (case r of None \<Rightarrow> [] | Some t \<Rightarrow> paths t)))"

fun leaves :: "tree \<Rightarrow> tree TreeNode list" where
  "leaves (Tree (TreeNode q l r a)) =
     (if l = None \<and> r = None then [TreeNode q l r a]
      else (case l of None \<Rightarrow> [] | Some t \<Rightarrow> leaves t) @
           (case r of None \<Rightarrow> [] | Some t \<Rightarrow> leaves t))"

section \<open>play\_game\<close>

text \<open>
  What the console shows: a prompt of \<open>ask_yes_no\<close>, or one of the printed lines, the
  introduction, "Yay! I guessed it in \<open>n\<close> questions!", "Well played! I couldn't guess
  your element. I used \<open>n\<close> questions.", "I couldn't make a guess." and "Goodbye!".
\<close>

datatype event = Prompt string | Intro | Yay nat | WellPlayed nat | NoGuess | Goodbye

text \<open>
  The state a session runs in. \<open>objects\<close> is the object store: the node at each
  reference, with its four fields. Any type of references will do; with \<^typ>\<open>tree\<close> as
  references and \<^const>\<open>node_of\<close> as store, a tree built as a value is its own reference.
  \<open>pending\<close> is the answer source, the values that the coming calls of \<open>ask_yes_no\<close>
  return in order, and \<open>shown\<close> is what the console has shown so far.
\<close>

record 'r world =
  objects :: "'r \<Rightarrow> 'r TreeNode"
  pending :: "bool list"
  shown :: "event list"

definition print_line :: "event \<Rightarrow> 'r world \<Rightarrow> 'r world" where
  "print_line x w = w\<lparr>shown := shown w @ [x]\<rparr>"

text \<open>
  \<open>ask_yes_no\<close> shows the prompt and returns the user's answer. Its loop over input
  lines that are neither yes nor no is not part of the model: an element of \<open>pending\<close>
  is the value that one call returns. When the source is exhausted \<open>input()\<close> raises
  \<open>EOFError\<close>, after the prompt was shown.
\<close>

definition ask_yes_no :: "string \<Rightarrow> 'r world \<Rightarrow> (error + bool) \<times> 'r world" where
  "ask_yes_no prompt w =
     (case pending w of
        [] \<Rightarrow> (Inl EOFError, print_line (Prompt prompt) w)
      | answer # rest \<Rightarrow> (Inr answer, (print_line (Prompt prompt) w)\<lparr>pending := rest\<rparr>))"

text \<open>The prompt \<open>f"{node.question}"\<close>: the text \<open>None\<close> when there is no question.\<close>

definition format_question :: "string option \<Rightarrow> string" where
  "format_question q = (case q of None \<Rightarrow> ''None'' | Some s \<Rightarrow> s)"

lemma ask_yes_no_pending:
  "ask_yes_no prompt w = (Inr answer, w') \<Longrightarrow> length (pending w') < length (pending w)"
  by (auto simp: ask_yes_no_def print_line_def split: list.splits)

text \<open>
  The loop \<open>while not node.is_leaf()\<close> with the variables \<open>node\<close> and \<open>guesses\<close>. Calling
  \<open>is_leaf\<close> on \<open>None\<close> raises \<open>AttributeError\<close>. Each round consumes one answer, which
  is the measure of termination.
\<close>

function question_loop ::
  "'r option \<Rightarrow> nat \<Rightarrow> 'r world \<Rightarrow> (error + ('r \<times> nat)) \<times> 'r world" where
  "question_loop node guesses w =
     (case node of
        None \<Rightarrow> (Inl AttributeError, w)
      | Some a \<Rightarrow>
          if is_leaf (objects w a) then (Inr (a, guesses), w)
          else (case ask_yes_no (format_question (question (objects w a))) w of
                  (Inl e, w') \<Rightarrow> (Inl e, w')
                | (Inr answer, w') \<Rightarrow>
                    question_loop (if answer then right (objects w' a) else left (objects w' a))
                      (guesses + 1) w'))"
  by pat_completeness auto
termination
  by (relation "measure (\<lambda>(node, guesses, w). length (pending w))")
     (auto dest: ask_yes_no_pending [OF sym])

declare question_loop.simps [simp del]

text \<open>The prompt \<open>f"Is your guess {element.strip()}?"\<close>.\<close>

definition guess_prompt :: "string \<Rightarrow> string" where
  "guess_prompt element = ''Is your guess '' @ strip element @ ''?''"

text \<open>
  The loop \<open>for element in guessed_elements\<close> with its \<open>break\<close>; it returns \<open>correct\<close>
  and \<open>guesses\<close>.
\<close>

fun confirm_loop ::
  "string list \<Rightarrow> nat \<Rightarrow> 'r world \<Rightarrow> (error + (bool \<times> nat)) \<times> 'r world" where
  "confirm_loop [] guesses w = (Inr (False, guesses), w)"
| "confirm_loop (element # rest) guesses w =
     (case ask_yes_no (guess_prompt element) w of
        (Inl e, w') \<Rightarrow> (Inl e, w')
      | (Inr answer, w') \<Rightarrow>
          if answer then (Inr (True, guesses + 1), print_line (Yay (guesses + 1)) w')
          else confirm_loop rest (guesses + 1) w')"

text \<open>The three branches on \<open>len(guessed_elements)\<close> after the question loop.\<close>

definition guess_phase ::
  "string list \<Rightarrow> nat \<Rightarrow> 'r world \<Rightarrow> (error + unit) \<times> 'r world" where
  "guess_phase guessed_elements guesses w =
     (if length guessed_elements = 1 then
        (case ask_yes_no (guess_prompt (guessed_elements ! 0)) w of
           (Inl e, w') \<Rightarrow> (Inl e, w')
         | (Inr correct, w') \<Rightarrow>
             if correct then (Inr (), print_line (Yay (guesses + 1)) w')
             else (Inr (), print_line (WellPlayed (guesses + 1)) w'))
      else if length guessed_elements > 1 then
        (case confirm_loop guessed_elements guesses w of
           (Inl e, w') \<Rightarrow> (Inl e, w')
         | (Inr (correct, guesses'), w') \<Rightarrow>
             if \<not> correct then (Inr (), print_line (WellPlayed guesses') w')
             else (Inr (), w'))
      else (Inr (), print_line NoGuess w))"

text \<open>
  \<open>play_game\<close>: the introduction, the question loop from the root with \<open>guesses = 0\<close>,
  then the guesses on \<open>node.answers\<close>.
\<close>

definition play_game :: "'r option \<Rightarrow> 'r world \<Rightarrow> (error + unit) \<times> 'r world" where
  "play_game tree w =
     (case question_loop tree 0 (print_line Intro w) of
        (Inl e, w') \<Rightarrow> (Inl e, w')
      | (Inr (a, guesses), w') \<Rightarrow> guess_phase (answers (objects w' a)) guesses w')"

text \<open>No step writes to the object store, and no step adds to the answer source.\<close>

lemma ask_yes_no_objects: "objects (snd (ask_yes_no prompt w)) = objects w"
  by (simp add: ask_yes_no_def print_line_def split: list.splits)

lemma ask_yes_no_pending_le: "length (pending (snd (ask_yes_no prompt w))) \<le> length (pending w)"
  by (simp add: ask_yes_no_def print_line_def split: list.splits)

lemma question_loop_objects: "objects (snd (question_loop node guesses w)) = objects w"
proof (induction node guesses w rule: question_loop.induct)
  case (1 node guesses w)
  show ?case
  proof (cases node)
    case None
    then show ?thesis by (simp add: question_loop.simps)
  next
    case (Some a)
    show ?thesis
    proof (cases "is_leaf (objects w a)")
      case True
      with Some show ?thesis by (simp add: question_loop.simps)
    next
      case False
      obtain res w' where ask: "ask_yes_no (format_question (question (objects w a))) w = (res, w')"
        by (cases "ask_yes_no (format_question (question (objects w a))) w")
      then have w': "objects w' = objects w"
        using ask_yes_no_objects [of "format_question (question (objects w a))" w] by simp
      show ?thesis
      proof (cases res)
        case (Inl e)
        with Some False ask w' show ?thesis by (simp add: question_loop.simps)
      next
        case (Inr answer)
        with "1.IH" [OF Some False ask [symmetric] Inr] Some False ask w'
        show ?thesis by (simp add: question_loop.simps)
      qed
    qed
  qed
qed

lemma question_loop_pending_le:
  "length (pending (snd (question_loop node guesses w))) \<le> length (pending w)"
proof (induction node guesses w rule: question_loop.induct)
  case (1 node guesses w)
  show ?case
  proof (cases node)
    case None
    then show ?thesis by (simp add: question_loop.simps)
  next
    case (Some a)
    show ?thesis
    proof (cases "is_leaf (objects w a)")
      case True
      with Some show ?thesis by (simp add: question_loop.simps)
    next
      case False
      obtain res w' where ask: "ask_yes_no (format_question (question (objects w a))) w = (res, w')"
        by (cases "ask_yes_no (format_question (question (objects w a))) w")
      then have w': "length (pending w') \<le> length (pending w)"
        using ask_yes_no_pending_le [of "format_question (question (objects w a))" w] by simp
      show ?thesis
      proof (cases res)
        case (Inl e)
        with Some False ask w' show ?thesis by (simp add: question_loop.simps)
      next
        case (Inr answer)
        with "1.IH" [OF Some False ask [symmetric] Inr] Some False ask w'
        show ?thesis by (simp add: question_loop.simps)
      qed
    qed
  qed
qed

lemma confirm_loop_objects: "objects (snd (confirm_loop elements guesses w)) = objects w"
proof (induction elements arbitrary: guesses w)
  case Nil
  then show ?case by simp
next
  case (Cons element rest)
  obtain res w' where ask: "ask_yes_no (guess_prompt element) w = (res, w')"
    by (cases "ask_yes_no (guess_prompt element) w")
  then have "objects w' = objects w"
    using ask_yes_no_objects [of "guess_prompt element" w] by simp
  with ask Cons.IH [of "guesses + 1" w'] show ?case
    by (cases res) (simp_all add: print_line_def)
qed

lemma confirm_loop_pending_le:
  "length (pending (snd (confirm_loop elements guesses w))) \<le> length (pending w)"
proof (induction elements arbitrary: guesses w)
  case Nil
  then show ?case by simp
next
  case (Cons element rest)
  obtain res w' where ask: "ask_yes_no (guess_prompt element) w = (res, w')"
    by (cases "ask_yes_no (guess_prompt element) w")
  then have "length (pending w') \<le> length (pending w)"
    using ask_yes_no_pending_le [of "guess_prompt element" w] by simp
  with ask Cons.IH [of "guesses + 1" w'] show ?case
    by (cases res) (auto simp: print_line_def intro: le_trans)
qed

lemma guess_phase_objects: "objects (snd (guess_phase elements guesses w)) = objects w"
proof -
  obtain r1 w1 where a1: "ask_yes_no (guess_prompt (elements ! 0)) w = (r1, w1)"
    by (cases "ask_yes_no (guess_prompt (elements ! 0)) w")
  then have o1: "objects w1 = objects w"
    using ask_yes_no_objects [of "guess_prompt (elements ! 0)" w] by simp
  obtain r2 w2 where a2: "confirm_loop elements guesses w = (r2, w2)"
    by (cases "confirm_loop elements guesses w")
  then have o2: "objects w2 = objects w"
    using confirm_loop_objects [of elements guesses w] by simp
  show ?thesis
    using a1 o1 a2 o2
    by (cases r1; cases r2) (auto simp: guess_phase_def print_line_def split: prod.splits)
qed

lemma guess_phase_pending_le:
  "length (pending (snd (guess_phase elements guesses w))) \<le> length (pending w)"
proof -
  obtain r1 w1 where a1: "ask_yes_no (guess_prompt (elements ! 0)) w = (r1, w1)"
    by (cases "ask_yes_no (guess_prompt (elements ! 0)) w")
  then have o1: "length (pending w1) \<le> length (pending w)"
    using ask_yes_no_pending_le [of "guess_prompt (elements ! 0)" w] by simp
  obtain r2 w2 where a2: "confirm_loop elements guesses w = (r2, w2)"
    by (cases "confirm_loop elements guesses w")
  then have o2: "length (pending w2) \<le> length (pending w)"
    using confirm_loop_pending_le [of elements guesses w] by simp
  show ?thesis
    using a1 o1 a2 o2
    by (cases r1; cases r2) (auto simp: guess_phase_def print_line_def split: prod.splits)
qed

lemma play_game_objects: "objects (snd (play_game tree w)) = objects w"
proof -
  obtain res w' where q: "question_loop tree 0 (print_line Intro w) = (res, w')"
    by (cases "question_loop tree 0 (print_line Intro w)")
  then have "objects w' = objects w"
    using question_loop_objects [of tree 0 "print_line Intro w"] by (simp add: print_line_def)
  with q show ?thesis
    by (cases res) (auto simp: play_game_def guess_phase_objects)
qed

lemma play_game_pending_le: "length (pending (snd (play_game tree w))) \<le> length (pending w)"
proof -
  obtain res w' where q: "question_loop tree 0 (print_line Intro w) = (res, w')"
    by (cases "question_loop tree 0 (print_line Intro w)")
  then have "length (pending w') \<le> length (pending w)"
    using question_loop_pending_le [of tree 0 "print_line Intro w"] by (simp add: print_line_def)
  with q show ?thesis
    by (cases res) (auto simp: play_game_def intro: le_trans [OF guess_phase_pending_le])
qed

text \<open>
  The loop of \<open>main\<close>: a session on the same root, then "Would you like to play again?",
  until the answer is no.
\<close>

function main_loop :: "'r option \<Rightarrow> 'r world \<Rightarrow> (error + unit) \<times> 'r world" where
  "main_loop tree w =
     (case play_game tree w of
        (Inl e, w') \<Rightarrow> (Inl e, w')
      | (Inr u, w') \<Rightarrow>
          (case ask_yes_no ''Would you like to play again?'' w' of
             (Inl e, w'') \<Rightarrow> (Inl e, w'')
           | (Inr again, w'') \<Rightarrow>
               if \<not> again then (Inr (), print_line Goodbye w'')
               else main_loop tree w''))"
  by pat_completeness auto
termination
proof (relation "measure (\<lambda>(tree, w). length (pending w))")
  show "wf (measure (\<lambda>(tree, w). length (pending w)))" by simp
next
  fix tree :: "'r option" and w w' w'' :: "'r world" and x u y again
  assume "(x, w') = play_game tree w" "(y, w'') = ask_yes_no ''Would you like to play again?'' w'"
    "y = Inr again"
  then have "length (pending w'') < length (pending w')" "length (pending w') \<le> length (pending w)"
    using ask_yes_no_pending [of "''Would you like to play again?''" w' again w'']
      play_game_pending_le [of tree w] by (simp_all add: snd_def split: prod.splits) 
  then show "((tree, w''), tree, w) \<in> measure (\<lambda>(tree, w). length (pending w))" by simp
qed

declare main_loop.simps [simp del]

lemma main_loop_objects: "objects (snd (main_loop tree w)) = objects w"
proof (induction tree w rule: main_loop.induct)
  case (1 tree w)
  obtain r1 w1 where p: "play_game tree w = (r1, w1)" by (cases "play_game tree w")
  then have o1: "objects w1 = objects w" using play_game_objects [of tree w] by simp
  obtain r2 w2 where a: "ask_yes_no ''Would you like to play again?'' w1 = (r2, w2)"
    by (cases "ask_yes_no ''Would you like to play again?'' w1")
  then have o2: "objects w2 = objects w1"
    using ask_yes_no_objects [of "''Would you like to play again?''" w1] by simp
  show ?case
  proof (cases r1)
    case (Inl e)
    with p o1 show ?thesis by (simp add: main_loop.simps)
  next
    case u: (Inr u)
    show ?thesis
    proof (cases r2)
      case (Inl e)
      with u p a o1 o2 show ?thesis by (simp add: main_loop.simps)
    next
      case (Inr again)
      with "1.IH" [OF p [symmetric] u a [symmetric] Inr] u p a o1 o2
      show ?thesis by (cases again) (simp_all add: main_loop.simps print_line_def)
    qed
  qed
qed

section \<open>Example data\<close>

text \<open>
  Five rows with a label and three features. The value of \<open>legs\<close> in the last row is
  neither \<open>0\<close> nor \<open>1\<close>; two values carry surrounding blanks. \<open>legs\<close> and \<open>fur\<close> are
  equally balanced, two rows against two, and \<open>fins\<close> is less balanced.
\<close>

definition row_cat :: row where
  "row_cat = [''label'' \<mapsto> ''cat'', ''fins'' \<mapsto> ''0'', ''legs'' \<mapsto> ''1'', ''fur'' \<mapsto> ''1'']"
definition row_dog :: row where
  "row_dog = [''label'' \<mapsto> ''dog'', ''fins'' \<mapsto> ''0'', ''legs'' \<mapsto> '' 0'', ''fur'' \<mapsto> ''1 '']"
definition row_eel :: row where
  "row_eel = [''label'' \<mapsto> ''eel'', ''fins'' \<mapsto> ''1'', ''legs'' \<mapsto> ''0'', ''fur'' \<mapsto> ''0'']"
definition row_owl :: row where
  "row_owl = [''label'' \<mapsto> ''owl'', ''fins'' \<mapsto> ''0'', ''legs'' \<mapsto> ''1'', ''fur'' \<mapsto> ''0'']"
definition row_ant :: row where
  "row_ant = [''label'' \<mapsto> ''ant'', ''fins'' \<mapsto> ''0'', ''legs'' \<mapsto> ''6'', ''fur'' \<mapsto> ''n/a'']"

definition animals :: "row list" where
  "animals = [row_cat, row_dog, row_eel, row_owl, row_ant]"

definition features :: "string list" where
  "features = [''fins'', ''legs'', ''fur'']"

definition leaf :: "string list \<Rightarrow> tree" where
  "leaf xs = Tree (TreeNode None None None xs)"

definition animal_tree :: tree where
  "animal_tree =
     Tree (TreeNode (Some ''legs'')
       (Some (Tree (TreeNode (Some ''fins'') (Some (leaf [''dog''])) (Some (leaf [''eel''])) [])))
       (Some (Tree (TreeNode (Some ''fur'') (Some (leaf [''owl''])) (Some (leaf [''cat''])) [])))
       [])"


definition two_answer_tree :: tree where
  "two_answer_tree =
     Tree (TreeNode (Some ''legs'') (Some (leaf [''cat'', ''dog''])) (Some (leaf [''eel''])) [])"

definition dog_eel_tree :: tree where
  "dog_eel_tree = Tree (TreeNode (Some ''fins'') (Some (leaf [''dog''])) (Some (leaf [''eel''])) [])"

definition owl_cat_tree :: tree where
  "owl_cat_tree = Tree (TreeNode (Some ''fur'') (Some (leaf [''owl''])) (Some (leaf [''cat''])) [])"

section \<open>Properties of build\_tree\<close>

text \<open>
  Rows that hold every column raise nothing; a returned tree is an empty leaf, a leaf
  with one label per row, or a node over the trees of the two buckets.
\<close>

lemma map_err_ok:
  "(\<forall>x\<in>set xs. \<exists>y. f x = Inr y) \<Longrightarrow> \<exists>ys. map_err f xs = Inr ys"
  by (induction xs) auto

lemma map_err_length: "map_err f xs = Inr ys \<Longrightarrow> length ys = length xs"
  by (induction xs arbitrary: ys) (auto simp: bind_err_eq_Inr)

lemma all_err_ok:
  "(\<forall>x\<in>set xs. \<exists>b. p x = Inr b) \<Longrightarrow> \<exists>b. all_err p xs = Inr b"
  by (induction xs) auto

lemma getitem_ok: "r col \<noteq> None \<Longrightarrow> \<exists>v. getitem r col = Inr v"
  by (cases "r col") (simp_all add: getitem_def)

lemma all_same_values_ok:
  assumes "has_columns rows cols"
  shows "\<exists>b. all_same_values rows cols = Inr b"
proof (cases rows)
  case Nil
  then show ?thesis by (auto simp: all_same_values_def)
next
  case (Cons first_row rest)
  with assms have keys: "\<forall>r\<in>set (first_row # rest). \<forall>c\<in>set cols. r c \<noteq> None"
    by (simp add: has_columns_iff)
  then have "\<forall>c\<in>set cols. \<exists>v. getitem first_row c = Inr v"
    by (simp add: getitem_ok)
  then have "\<exists>vals. map_err (getitem first_row) cols = Inr vals"
    by (rule map_err_ok)
  then obtain vals where vals: "map_err (getitem first_row) cols = Inr vals" ..
  have "\<forall>r\<in>set rest. \<exists>b. all_err (\<lambda>(i, col).
          bind_err (getitem r col) (\<lambda>x. Inr (x = vals ! i))) (List.enumerate 0 cols) = Inr b"
  proof
    fix r assume r: "r \<in> set rest"
    have "\<forall>p\<in>set (List.enumerate 0 cols).
            \<exists>b. (case p of (i, col) \<Rightarrow> bind_err (getitem r col) (\<lambda>x. Inr (x = vals ! i))) = Inr b"
    proof
      fix p assume "p \<in> set (List.enumerate 0 cols)"
      then have "fst p < length cols" "cols ! fst p = snd p"
        by (simp_all add: in_set_enumerate_eq)
      then have "snd p \<in> set cols"
        using nth_mem [of "fst p" cols] by simp
      with keys r have "r (snd p) \<noteq> None" by simp
      then obtain v where "getitem r (snd p) = Inr v"
        using getitem_ok by blast
      then show "\<exists>b. (case p of (i, col) \<Rightarrow> bind_err (getitem r col) (\<lambda>x. Inr (x = vals ! i))) = Inr b"
        by (cases p) simp
    qed
    then show "\<exists>b. all_err (\<lambda>(i, col).
          bind_err (getitem r col) (\<lambda>x. Inr (x = vals ! i))) (List.enumerate 0 cols) = Inr b"
      by (rule all_err_ok)
  qed
  then have "\<exists>bs. map_err (\<lambda>r. all_err (\<lambda>(i, col).
          bind_err (getitem r col) (\<lambda>x. Inr (x = vals ! i))) (List.enumerate 0 cols)) rest = Inr bs"
    by (rule map_err_ok)
  then obtain bs where "map_err (\<lambda>r. all_err (\<lambda>(i, col).
          bind_err (getitem r col) (\<lambda>x. Inr (x = vals ! i))) (List.enumerate 0 cols)) rest = Inr bs" ..
  with vals Cons show ?thesis by (simp add: all_same_values_def)
qed

lemma init_TreeNode_Some [simp]: "init_TreeNode q l r (Some xs) = TreeNode q l r xs"
  by (simp add: init_TreeNode_def)

lemma init_TreeNode_None [simp]: "init_TreeNode q l r None = TreeNode q l r []"
  by (simp add: init_TreeNode_def)

lemma leaf_of_ok:
  assumes "\<forall>r\<in>set rows. r label_col \<noteq> None"
  shows "\<exists>labels. leaf_of rows label_col = Inr (Tree (TreeNode None None None labels))"
proof -
  from assms have "\<forall>r\<in>set rows. \<exists>v. getitem r label_col = Inr v"
    by (simp add: getitem_ok)
  then have "\<exists>labels. map_err (\<lambda>r. getitem r label_col) rows = Inr labels"
    by (rule map_err_ok)
  then obtain labels where "map_err (\<lambda>r. getitem r label_col) rows = Inr labels" ..
  then show ?thesis by (simp add: leaf_of_def)
qed

lemma leaf_of_Inr:
  assumes "leaf_of rows label_col = Inr t"
  shows "\<exists>labels. length labels = length rows \<and> t = Tree (TreeNode None None None labels)"
  using assms by (auto simp: leaf_of_def bind_err_eq_Inr dest: map_err_length)

lemma best_split_filter:
  assumes "best_split rows cs = Inr (Some b)"
  shows "filter_err (strips_to b v) rows = Inr (bucket rows b v)"
proof -
  from best_split_Some [OF assms] have "\<forall>r\<in>set rows. r b \<noteq> None"
    by (auto simp: has_columns_iff)
  then show ?thesis by (rule filter_err_strips_to)
qed

lemma build_tree_split:
  assumes "rows \<noteq> []" "all_same_values rows (label_col # cs) = Inr False"
    "best_split rows cs = Inr (Some b)" "b \<noteq> []"
  shows "build_tree rows cs label_col =
     bind_err (build_tree (bucket rows b ''0'') (filter (\<lambda>c. c \<noteq> b) cs) label_col) (\<lambda>left_child.
     bind_err (build_tree (bucket rows b ''1'') (filter (\<lambda>c. c \<noteq> b) cs) label_col) (\<lambda>right_child.
     Inr (Tree (TreeNode (Some b) (Some left_child) (Some right_child) []))))"
proof -
  from best_split_Some [OF assms(3)] have "cs \<noteq> []" by auto
  then show ?thesis
    using assms by (subst build_tree.simps) (simp add: best_split_filter [OF assms(3)] Let_def)
qed

lemma build_tree_empty: "build_tree [] cs label_col = Inr (Tree (TreeNode None None None []))"
  by (subst build_tree.simps) simp

lemma build_tree_raise_same:
  "rows \<noteq> [] \<Longrightarrow> all_same_values rows (label_col # cs) = Inl e \<Longrightarrow>
   build_tree rows cs label_col = Inl e"
  by (subst build_tree.simps) simp

lemma build_tree_same:
  "rows \<noteq> [] \<Longrightarrow> all_same_values rows (label_col # cs) = Inr True \<Longrightarrow>
   build_tree rows cs label_col = leaf_of rows label_col"
  by (subst build_tree.simps) simp

lemma build_tree_raise_split:
  "rows \<noteq> [] \<Longrightarrow> all_same_values rows (label_col # cs) = Inr False \<Longrightarrow>
   best_split rows cs = Inl e \<Longrightarrow> build_tree rows cs label_col = Inl e"
  by (subst build_tree.simps) simp

lemma build_tree_no_split:
  "rows \<noteq> [] \<Longrightarrow> all_same_values rows (label_col # cs) = Inr False \<Longrightarrow>
   best_split rows cs = Inr best \<Longrightarrow> best = None \<or> best = Some [] \<Longrightarrow>
   build_tree rows cs label_col = leaf_of rows label_col"
  by (subst build_tree.simps) auto

lemma build_tree_Inr_cases:
  assumes "build_tree rows cs label_col = Inr t"
  shows "(rows = [] \<and> t = Tree (TreeNode None None None []))
       \<or> (rows \<noteq> [] \<and> (\<exists>labels. length labels = length rows \<and> t = Tree (TreeNode None None None labels)))
       \<or> (rows \<noteq> [] \<and> (\<exists>b lc rc. best_split rows cs = Inr (Some b) \<and>
             build_tree (bucket rows b ''0'') (filter (\<lambda>c. c \<noteq> b) cs) label_col = Inr lc \<and>
             build_tree (bucket rows b ''1'') (filter (\<lambda>c. c \<noteq> b) cs) label_col = Inr rc \<and>
             t = Tree (TreeNode (Some b) (Some lc) (Some rc) [])))"
proof (cases "rows = []")
  case True
  with assms show ?thesis by (simp add: build_tree_empty)
next
  case ne: False
  have leaf: ?thesis if "leaf_of rows label_col = Inr t"
    using leaf_of_Inr [OF that] ne by blast
  show ?thesis
  proof (cases "all_same_values rows (label_col # cs)")
    case (Inl e)
    with assms ne show ?thesis by (simp add: build_tree_raise_same)
  next
    case (Inr same)
    show ?thesis
    proof (cases same)
      case True
      with assms ne Inr show ?thesis by (intro leaf) (simp add: build_tree_same)
    next
      case nsame: False
      show ?thesis
      proof (cases "best_split rows cs")
        case (Inl e)
        with assms ne Inr nsame show ?thesis by (simp add: build_tree_raise_split)
      next
        case best: (Inr best)
        show ?thesis
        proof (cases "best = None \<or> best = Some []")
          case True
          have "build_tree rows cs label_col = leaf_of rows label_col"
            using ne Inr nsame best True by (intro build_tree_no_split) auto
          with assms show ?thesis by (intro leaf) simp
        next
          case False
          then obtain b where b: "best = Some b" "b \<noteq> []" by auto
          have "build_tree rows cs label_col =
             bind_err (build_tree (bucket rows b ''0'') (filter (\<lambda>c. c \<noteq> b) cs) label_col) (\<lambda>left_child.
             bind_err (build_tree (bucket rows b ''1'') (filter (\<lambda>c. c \<noteq> b) cs) label_col) (\<lambda>right_child.
             Inr (Tree (TreeNode (Some b) (Some left_child) (Some right_child) []))))"
            using ne Inr nsame best b by (intro build_tree_split) auto
          with assms obtain lc rc where
            "build_tree (bucket rows b ''0'') (filter (\<lambda>c. c \<noteq> b) cs) label_col = Inr lc"
            "build_tree (bucket rows b ''1'') (filter (\<lambda>c. c \<noteq> b) cs) label_col = Inr rc"
            "t = Tree (TreeNode (Some b) (Some lc) (Some rc) [])"
            by (auto simp: bind_err_eq_Inr)
          with ne best b show ?thesis by blast
        qed
      qed
    qed
  qed
qed

lemma has_columns_sub:
  "has_columns rows cols \<Longrightarrow> set rows' \<subseteq> set rows \<Longrightarrow> set cols' \<subseteq> set cols \<Longrightarrow>
   has_columns rows' cols'"
  unfolding has_columns_iff by blast

lemma best_split_ok:
  assumes "has_columns rows cs"
  shows "\<exists>best. best_split rows cs = Inr best"
  using best_split_loop_spec [OF assms, of None \<infinity>] by (auto simp: best_split_def)

lemma build_tree_total:
  "has_columns rows (label_col # cs) \<Longrightarrow> \<exists>t. build_tree rows cs label_col = Inr t"
proof (induction "length cs" arbitrary: rows cs rule: less_induct)
  case less
  have hl: "\<forall>r\<in>set rows. r label_col \<noteq> None" and hcs: "has_columns rows cs"
    using less.prems by (auto simp: has_columns_iff)
  show ?case
  proof (cases "rows = []")
    case True
    then show ?thesis by (simp add: build_tree_empty)
  next
    case ne: False
    from all_same_values_ok [OF less.prems] obtain same
      where same: "all_same_values rows (label_col # cs) = Inr same" ..
    from best_split_ok [OF hcs] obtain best where best: "best_split rows cs = Inr best" ..
    from leaf_of_ok [OF hl] obtain labels
      where leaf: "leaf_of rows label_col = Inr (Tree (TreeNode None None None labels))" ..
    show ?thesis
    proof (cases "same \<or> best = None \<or> best = Some []")
      case True
      then have "build_tree rows cs label_col = leaf_of rows label_col"
        using ne same best build_tree_same build_tree_no_split by (cases same) auto
      with leaf show ?thesis by simp
    next
      case False
      then obtain b where b: "best = Some b" "b \<noteq> []" "\<not> same" by auto
      let ?rem = "filter (\<lambda>c. c \<noteq> b) cs"
      from best b have bs: "best_split rows cs = Inr (Some b)" by simp
      then have "b \<in> set cs" using best_split_Some by blast
      then have lt: "length ?rem < length cs" by (simp add: length_filter_less)
      have "has_columns (bucket rows b ''0'') (label_col # ?rem)"
        "has_columns (bucket rows b ''1'') (label_col # ?rem)"
        using less.prems by (auto intro!: has_columns_sub [of rows "label_col # cs"] simp: bucket_def)
      with less.hyps [OF lt] obtain lc rc where
        "build_tree (bucket rows b ''0'') ?rem label_col = Inr lc"
        "build_tree (bucket rows b ''1'') ?rem label_col = Inr rc" by blast
      moreover have "all_same_values rows (label_col # cs) = Inr False" using same b by simp
      ultimately show ?thesis
        using build_tree_split [OF ne _ bs b(2), of label_col] by simp
    qed
  qed
qed

text \<open>
  Rows on which \<open>all_same_values\<close> and \<open>best_split\<close> both returned hold the label
  column and every candidate feature.
\<close>

lemma map_err_Inr_all:
  "map_err f xs = Inr ys \<Longrightarrow> x \<in> set xs \<Longrightarrow> \<exists>y. f x = Inr y"
  by (induction xs arbitrary: ys) (auto simp: bind_err_eq_Inr)

lemma getitem_Inr: "getitem r col = Inr v \<Longrightarrow> r col \<noteq> None"
  by (cases "r col") (simp_all add: getitem_def)

lemma all_same_values_first_column:
  assumes "all_same_values rows (col # cols) = Inr same"
  shows "\<forall>r\<in>set rows. r col \<noteq> None"
proof (cases rows)
  case Nil
  then show ?thesis by simp
next
  case (Cons first_row rest)
  with assms obtain vals bs where
    vals: "map_err (getitem first_row) (col # cols) = Inr vals"
    and bs: "map_err (\<lambda>r. all_err (\<lambda>(i, c).
                bind_err (getitem r c) (\<lambda>x. Inr (x = vals ! i)))
              (List.enumerate 0 (col # cols))) rest = Inr bs"
    by (auto simp: all_same_values_def bind_err_eq_Inr)
  from vals have first: "first_row col \<noteq> None"
    by (auto simp: bind_err_eq_Inr dest: getitem_Inr)
  have "r col \<noteq> None" if "r \<in> set rest" for r
  proof -
    from map_err_Inr_all [OF bs that] obtain y where
      "all_err (\<lambda>(i, c). bind_err (getitem r c) (\<lambda>x. Inr (x = vals ! i)))
         (List.enumerate 0 (col # cols)) = Inr y" ..
    then show ?thesis
      by (auto simp: bind_err_eq_Inr dest: getitem_Inr)
  qed
  with first Cons show ?thesis by auto
qed

lemma split_has_columns:
  assumes "all_same_values rows (label_col # cs) = Inr same"
    and "best_split rows cs = Inr best"
  shows "has_columns rows (label_col # cs)"
proof -
  from assms(2) have "has_columns rows cs"
    unfolding best_split_def by (rule best_split_loop_has_columns)
  with all_same_values_first_column [OF assms(1)] show ?thesis
    by (simp add: has_columns_iff)
qed

lemma depth_build_tree:
  "build_tree rows cs label_col = Inr t \<Longrightarrow> depth t \<le> length cs + 1"
proof (induction "length cs" arbitrary: rows cs t rule: less_induct)
  case less
  from build_tree_Inr_cases [OF less.prems] show ?case
  proof (elim disjE conjE exE)
    fix b lc rc
    let ?rem = "filter (\<lambda>c. c \<noteq> b) cs"
    assume a: "best_split rows cs = Inr (Some b)"
      "build_tree (bucket rows b ''0'') ?rem label_col = Inr lc"
      "build_tree (bucket rows b ''1'') ?rem label_col = Inr rc"
      "t = Tree (TreeNode (Some b) (Some lc) (Some rc) [])"
    from a(1) have "b \<in> set cs" using best_split_Some by blast
    then have lt: "length ?rem < length cs" by (simp add: length_filter_less)
    from less.hyps [OF lt a(2)] less.hyps [OF lt a(3)] lt a(4)
    show ?thesis by simp
  qed simp_all
qed

lemma paths_build_tree:
  "build_tree rows cs label_col = Inr t \<Longrightarrow> p \<in> set (paths t) \<Longrightarrow>
   distinct p \<and> set p \<subseteq> Some ` set cs"
proof (induction "length cs" arbitrary: rows cs t p rule: less_induct)
  case less
  from build_tree_Inr_cases [OF less.prems(1)] show ?case
  proof (elim disjE conjE exE)
    fix b lc rc
    let ?rem = "filter (\<lambda>c. c \<noteq> b) cs"
    assume a: "best_split rows cs = Inr (Some b)"
      "build_tree (bucket rows b ''0'') ?rem label_col = Inr lc"
      "build_tree (bucket rows b ''1'') ?rem label_col = Inr rc"
      "t = Tree (TreeNode (Some b) (Some lc) (Some rc) [])"
    from a(1) have bin: "b \<in> set cs" using best_split_Some by blast
    then have lt: "length ?rem < length cs" by (simp add: length_filter_less)
    from less.prems(2) a(4) obtain p' where p': "p = Some b # p'"
      "p' \<in> set (paths lc) \<or> p' \<in> set (paths rc)" by auto
    then have "distinct p' \<and> set p' \<subseteq> Some ` set ?rem"
      using less.hyps [OF lt a(2)] less.hyps [OF lt a(3)] by blast
    with p'(1) bin show ?thesis by auto
  next
    assume "rows = []" "t = Tree (TreeNode None None None [])"
    with less.prems(2) show ?thesis by simp
  next
    fix labels assume "t = Tree (TreeNode None None None labels)"
    with less.prems(2) show ?thesis by simp
  qed
qed

lemma leaves_build_tree:
  "rows \<noteq> [] \<Longrightarrow> build_tree rows cs label_col = Inr t \<Longrightarrow> n \<in> set (leaves t) \<Longrightarrow>
   answers n \<noteq> [] \<and> question n = None"
proof (induction "length cs" arbitrary: rows cs t n rule: less_induct)
  case less
  from build_tree_Inr_cases [OF less.prems(2)] show ?case
  proof (elim disjE conjE exE)
    fix b lc rc
    let ?rem = "filter (\<lambda>c. c \<noteq> b) cs"
    assume a: "best_split rows cs = Inr (Some b)"
      "build_tree (bucket rows b ''0'') ?rem label_col = Inr lc"
      "build_tree (bucket rows b ''1'') ?rem label_col = Inr rc"
      "t = Tree (TreeNode (Some b) (Some lc) (Some rc) [])"
    from a(1) have bin: "b \<in> set cs" and us: "usable rows b" using best_split_Some by blast+
    then have lt: "length ?rem < length cs" by (simp add: length_filter_less)
    from us have ne: "bucket rows b ''0'' \<noteq> []" "bucket rows b ''1'' \<noteq> []"
      by (auto simp: usable_def)
    from less.prems(3) a(4) have "n \<in> set (leaves lc) \<or> n \<in> set (leaves rc)" by auto
    then show ?thesis
      using less.hyps [OF lt ne(1) a(2)] less.hyps [OF lt ne(2) a(3)] by blast
  next
    assume "rows = []"
    with less.prems(1) show ?thesis by simp
  next
    fix labels assume "length labels = length rows" "t = Tree (TreeNode None None None labels)"
    with less.prems(1,3) show ?thesis by auto
  qed
qed


lemma animals_columns: "has_columns animals (''label'' # features)"
  by code_simp

lemma animals_split: "best_split animals features = Inr (Some ''legs'')"
  by code_simp

lemma animals_not_same: "all_same_values animals (''label'' # features) = Inr False"
  by code_simp

lemma animals_tree: "build_tree animals features ''label'' = Inr animal_tree"
  by code_simp


section \<open>Properties of play\_game\<close>

text \<open>
  The guesses at a leaf, for answers that are no up to some position, and the prompts
  and the counter of the question loop.
\<close>

lemma ask_yes_no_Cons:
  "pending w = b # rest \<Longrightarrow>
   ask_yes_no prompt w = (Inr b, w\<lparr>pending := rest, shown := shown w @ [Prompt prompt]\<rparr>)"
  by (simp add: ask_yes_no_def print_line_def)

lemma confirm_loop_failure:
  "pending w = replicate (length elements) False @ rest \<Longrightarrow>
   confirm_loop elements k w =
     (Inr (False, k + length elements),
      w\<lparr>pending := rest, shown := shown w @ map (\<lambda>e. Prompt (guess_prompt e)) elements\<rparr>)"
proof (induction elements arbitrary: k w)
  case Nil
  then show ?case by simp
next
  case (Cons e es)
  let ?w' = "w\<lparr>pending := replicate (length es) False @ rest, shown := shown w @ [Prompt (guess_prompt e)]\<rparr>"
  from Cons.prems have ask: "ask_yes_no (guess_prompt e) w = (Inr False, ?w')"
    by (intro ask_yes_no_Cons) simp
  have "pending ?w' = replicate (length es) False @ rest" by simp
  from Cons.IH [OF this, of "k + 1"] ask show ?case by simp
qed

lemma confirm_loop_success:
  "j < length elements \<Longrightarrow> pending w = replicate j False @ True # rest \<Longrightarrow>
   confirm_loop elements k w =
     (Inr (True, k + (j + 1)),
      w\<lparr>pending := rest,
        shown := shown w @ map (\<lambda>e. Prompt (guess_prompt e)) (take (Suc j) elements)
                 @ [Yay (k + (j + 1))]\<rparr>)"
proof (induction elements arbitrary: j k w)
  case Nil
  then show ?case by simp
next
  case (Cons e es)
  show ?case
  proof (cases j)
    case 0
    with Cons.prems have "ask_yes_no (guess_prompt e) w =
        (Inr True, w\<lparr>pending := rest, shown := shown w @ [Prompt (guess_prompt e)]\<rparr>)"
      by (intro ask_yes_no_Cons) simp
    with 0 show ?thesis by (simp add: print_line_def)
  next
    case (Suc i)
    let ?w' = "w\<lparr>pending := replicate i False @ True # rest,
                 shown := shown w @ [Prompt (guess_prompt e)]\<rparr>"
    from Cons.prems Suc have ask: "ask_yes_no (guess_prompt e) w = (Inr False, ?w')"
      by (intro ask_yes_no_Cons) simp
    from Cons.prems Suc have i: "i < length es" by simp
    have "pending ?w' = replicate i False @ True # rest" by simp
    from Cons.IH [OF i this, of "k + 1"] ask Suc show ?thesis by simp
  qed
qed

lemma guess_phase_failure:
  assumes "elements \<noteq> []" "pending w = replicate (length elements) False @ rest"
  shows "guess_phase elements k w =
     (Inr (), w\<lparr>pending := rest,
        shown := shown w @ map (\<lambda>e. Prompt (guess_prompt e)) elements
                 @ [WellPlayed (k + length elements)]\<rparr>)"
proof (cases "length elements = 1")
  case True
  then obtain e where e: "elements = [e]" by (cases elements) auto
  with assms(2) have "ask_yes_no (guess_prompt e) w =
      (Inr False, w\<lparr>pending := rest, shown := shown w @ [Prompt (guess_prompt e)]\<rparr>)"
    by (intro ask_yes_no_Cons) simp
  with e show ?thesis by (simp add: guess_phase_def print_line_def)
next
  case False
  with assms(1) have "length elements > 1" by (cases elements) auto
  with False confirm_loop_failure [OF assms(2), of k] show ?thesis
    by (simp add: guess_phase_def print_line_def)
qed

lemma guess_phase_success:
  assumes "j < length elements" "pending w = replicate j False @ True # rest"
  shows "guess_phase elements k w =
     (Inr (), w\<lparr>pending := rest,
        shown := shown w @ map (\<lambda>e. Prompt (guess_prompt e)) (take (Suc j) elements)
                 @ [Yay (k + (j + 1))]\<rparr>)"
proof (cases "length elements = 1")
  case True
  then obtain e where e: "elements = [e]" by (cases elements) auto
  with assms(1) have j: "j = 0" by simp
  with assms(2) have "ask_yes_no (guess_prompt e) w =
      (Inr True, w\<lparr>pending := rest, shown := shown w @ [Prompt (guess_prompt e)]\<rparr>)"
    by (intro ask_yes_no_Cons) simp
  with e j show ?thesis by (simp add: guess_phase_def print_line_def)
next
  case False
  with assms(1) have "length elements > 1" by (cases elements) auto
  with False confirm_loop_success [OF assms, of k] show ?thesis
    by (simp add: guess_phase_def)
qed

lemma question_loop_trace:
  "question_loop node g w = (Inr (a, k), w') \<Longrightarrow>
   is_leaf (objects w' a) \<and>
   (\<exists>qs. shown w' = shown w @ map Prompt qs \<and> k = g + length qs)"
proof (induction node g w rule: question_loop.induct)
  case (1 node guesses w)
  show ?case
  proof (cases node)
    case None
    with "1.prems" show ?thesis by (simp add: question_loop.simps)
  next
    case (Some b)
    show ?thesis
    proof (cases "is_leaf (objects w b)")
      case True
      with Some "1.prems" have "a = b" "k = guesses" "w' = w"
        by (simp_all add: question_loop.simps)
      with True show ?thesis by simp
    next
      case False
      let ?p = "format_question (question (objects w b))"
      obtain res w1 where ask: "ask_yes_no ?p w = (res, w1)"
        by (cases "ask_yes_no ?p w")
      then have sh: "shown w1 = shown w @ [Prompt ?p]"
        by (auto simp: ask_yes_no_def print_line_def split: list.splits)
      show ?thesis
      proof (cases res)
        case (Inl e)
        with Some False ask "1.prems" show ?thesis by (simp add: question_loop.simps)
      next
        case (Inr answer)
        with Some False ask "1.prems"
        have "question_loop (if answer then right (objects w1 b) else left (objects w1 b))
                (guesses + 1) w1 = (Inr (a, k), w')"
          by (simp add: question_loop.simps)
        from "1.IH" [OF Some False ask [symmetric] Inr this]
        obtain qs where leaf: "is_leaf (objects w' a)"
          and qs: "shown w' = shown w1 @ map Prompt qs" "k = guesses + 1 + length qs"
          by blast
        from qs sh have "shown w' = shown w @ map Prompt (?p # qs)" "k = guesses + length (?p # qs)"
          by simp_all
        with leaf show ?thesis by blast
      qed
    qed
  qed
qed

section \<open>Theorems\<close>

text \<open>
  C2. The claim asks that a node with no question and no answers be classified as a leaf.
  \<open>is_leaf\<close> is the truth value of \<open>answers\<close>, so the node created by
  \<open>TreeNode(answers=[])\<close> is reported as not a leaf.
\<close>

theorem is_leaf_degenerate_False:
  "is_leaf (init_TreeNode None None None (Some [])) = False"
  by (simp add: is_leaf_def init_TreeNode_def)

text \<open>
  C3. When every row holds every candidate feature, \<open>best_split\<close> returns either
  \<open>None\<close>, and then no candidate is usable, or a feature \<open>f\<close> at some position of the
  candidate list that is usable, strictly more balanced than every usable candidate
  before that position and at least as balanced as every usable candidate after it:
  the first of the most balanced usable candidates. Each step of the loop replaces the
  running best exactly when the candidate is usable and its imbalance is strictly below
  the running best balance.
\<close>

theorem best_split_first_most_balanced:
  assumes "has_columns rows classifications"
  shows "((best_split rows classifications = Inr None \<and>
           (\<forall>c\<in>set classifications. \<not> usable rows c))
        \<or> (\<exists>before f after.
             classifications = before @ f # after \<and>
             best_split rows classifications = Inr (Some f) \<and> usable rows f \<and>
             (\<forall>c\<in>set before. usable rows c \<longrightarrow> imbalance rows f < imbalance rows c) \<and>
             (\<forall>c\<in>set after. usable rows c \<longrightarrow> imbalance rows f \<le> imbalance rows c)))
       \<and> (\<forall>c\<in>set classifications. \<forall>rest best_classification best_balance.
             best_split_loop rows (c # rest) best_classification best_balance =
               (if usable rows c \<and> enat (imbalance rows c) < best_balance
                then best_split_loop rows rest (Some c) (enat (imbalance rows c))
                else best_split_loop rows rest best_classification best_balance))"
proof (intro conjI ballI allI)
  from best_split_loop_spec [OF assms, of None \<infinity>]
  show "(best_split rows classifications = Inr None \<and>
           (\<forall>c\<in>set classifications. \<not> usable rows c))
        \<or> (\<exists>before f after.
             classifications = before @ f # after \<and>
             best_split rows classifications = Inr (Some f) \<and> usable rows f \<and>
             (\<forall>c\<in>set before. usable rows c \<longrightarrow> imbalance rows f < imbalance rows c) \<and>
             (\<forall>c\<in>set after. usable rows c \<longrightarrow> imbalance rows f \<le> imbalance rows c))"
    unfolding best_split_def by (elim disjE conjE exE) (simp, blast)
next
  fix c rest best_classification best_balance
  assume "c \<in> set classifications"
  with assms have "\<forall>r\<in>set rows. r c \<noteq> None" by (simp add: has_columns_iff)
  then show "best_split_loop rows (c # rest) best_classification best_balance =
               (if usable rows c \<and> enat (imbalance rows c) < best_balance
                then best_split_loop rows rest (Some c) (enat (imbalance rows c))
                else best_split_loop rows rest best_classification best_balance)"
    by (rule loop_Cons)
qed

theorem best_split_first_most_balanced_witness:
  "has_columns animals features \<and>
   best_split animals features = Inr (Some ''legs'') \<and>
   (\<exists>before f after. features = before @ f # after \<and>
      best_split animals features = Inr (Some f) \<and> usable animals f)"
proof -
  have h: "has_columns animals features" by code_simp
  have r: "best_split animals features = Inr (Some ''legs'')" by (rule animals_split)
  from best_split_first_most_balanced [OF h] r
  have "\<exists>before f after. features = before @ f # after \<and>
      best_split animals features = Inr (Some f) \<and> usable animals f"
    by (elim conjE disjE) (simp, blast)
  with h r show ?thesis by blast
qed


text \<open>
  C4. When \<open>build_tree\<close> splits on feature \<open>b\<close> (the rows are not empty and not all the
  same, \<open>best_split\<close> chose \<open>b\<close>, and \<open>b\<close> is a non-empty name), the two list
  comprehensions select, in the order of the rows, exactly the rows whose value of \<open>b\<close>
  trims to \<open>0\<close> and exactly those whose value trims to \<open>1\<close>. \<open>build_tree\<close> returns a
  tree on each of the two lists, with \<open>b\<close> filtered out of the candidates, and returns
  for the rows the node with question \<open>b\<close> whose left child is the tree of the first
  list and whose right child is the tree of the second. A row whose trimmed value is
  neither \<open>0\<close> nor \<open>1\<close> is in neither list.
\<close>

theorem build_tree_split_partition:
  assumes "rows \<noteq> []"
    and "all_same_values rows (label_col # classifications) = Inr False"
    and "best_split rows classifications = Inr (Some b)"
    and "b \<noteq> []"
  shows "\<exists>left_child right_child.
       filter_err (strips_to b ''0'') rows = Inr (filter (\<lambda>r. trimmed r b = Some ''0'') rows)
     \<and> filter_err (strips_to b ''1'') rows = Inr (filter (\<lambda>r. trimmed r b = Some ''1'') rows)
     \<and> build_tree (filter (\<lambda>r. trimmed r b = Some ''0'') rows)
          (filter (\<lambda>c. c \<noteq> b) classifications) label_col = Inr left_child
     \<and> build_tree (filter (\<lambda>r. trimmed r b = Some ''1'') rows)
          (filter (\<lambda>c. c \<noteq> b) classifications) label_col = Inr right_child
     \<and> build_tree rows classifications label_col =
          Inr (Tree (TreeNode (Some b) (Some left_child) (Some right_child) []))
     \<and> (\<forall>r\<in>set rows. trimmed r b \<noteq> Some ''0'' \<and> trimmed r b \<noteq> Some ''1'' \<longrightarrow>
           r \<notin> set (filter (\<lambda>r. trimmed r b = Some ''0'') rows) \<and>
           r \<notin> set (filter (\<lambda>r. trimmed r b = Some ''1'') rows))"
proof -
  let ?rem = "filter (\<lambda>c. c \<noteq> b) classifications"
  have cols: "has_columns rows (label_col # classifications)"
    using assms(2,3) by (rule split_has_columns)
  have "has_columns (bucket rows b ''0'') (label_col # ?rem)"
    "has_columns (bucket rows b ''1'') (label_col # ?rem)"
    using cols by (auto intro!: has_columns_sub [of rows "label_col # classifications"]
        simp: bucket_def)
  then obtain lc rc where
    lc: "build_tree (bucket rows b ''0'') ?rem label_col = Inr lc" and
    rc: "build_tree (bucket rows b ''1'') ?rem label_col = Inr rc"
    using build_tree_total by blast
  from build_tree_split [OF assms] lc rc
  have "build_tree rows classifications label_col =
          Inr (Tree (TreeNode (Some b) (Some lc) (Some rc) []))" by simp
  with lc rc best_split_filter [OF assms(3)] show ?thesis
    by (simp add: bucket_def)
qed

theorem build_tree_split_partition_witness:
  "animals \<noteq> [] \<and> all_same_values animals (''label'' # features) = Inr False \<and>
   best_split animals features = Inr (Some ''legs'') \<and> ''legs'' \<noteq> [] \<and>
   filter (\<lambda>r. trimmed r ''legs'' = Some ''0'') animals = [row_dog, row_eel] \<and>
   filter (\<lambda>r. trimmed r ''legs'' = Some ''1'') animals = [row_cat, row_owl] \<and>
   build_tree [row_dog, row_eel] [''fins'', ''fur''] ''label'' = Inr dog_eel_tree \<and>
   build_tree [row_cat, row_owl] [''fins'', ''fur''] ''label'' = Inr owl_cat_tree \<and>
   build_tree animals features ''label'' =
     Inr (Tree (TreeNode (Some ''legs'') (Some dog_eel_tree) (Some owl_cat_tree) [])) \<and>
   trimmed row_ant ''legs'' = Some ''6'' \<and>
   row_ant \<notin> set [row_dog, row_eel] \<and> row_ant \<notin> set [row_cat, row_owl]"
proof -
  have h1: "animals \<noteq> []" by (simp add: animals_def)
  have h4: "''legs'' \<noteq> []" by simp
  have ant: "trimmed row_ant ''legs'' = Some ''6''" by code_simp
  have mem: "row_ant \<in> set animals" by (simp add: animals_def)
  have l: "filter (\<lambda>r. trimmed r ''legs'' = Some ''0'') animals = [row_dog, row_eel]"
    by (simp add: animals_def trimmed_def strip_def isspace_def
        row_cat_def row_dog_def row_eel_def row_owl_def row_ant_def)
  have r: "filter (\<lambda>r. trimmed r ''legs'' = Some ''1'') animals = [row_cat, row_owl]"
    by (simp add: animals_def trimmed_def strip_def isspace_def
        row_cat_def row_dog_def row_eel_def row_owl_def row_ant_def)
  have rem: "filter (\<lambda>c. c \<noteq> ''legs'') features = [''fins'', ''fur'']"
    by (simp add: features_def)
  have bl: "build_tree [row_dog, row_eel] [''fins'', ''fur''] ''label'' = Inr dog_eel_tree"
    by code_simp
  have br: "build_tree [row_cat, row_owl] [''fins'', ''fur''] ''label'' = Inr owl_cat_tree"
    by code_simp
  from build_tree_split_partition [OF h1 animals_not_same animals_split h4]
  obtain lc rc where
    lc: "build_tree (filter (\<lambda>r. trimmed r ''legs'' = Some ''0'') animals)
          (filter (\<lambda>c. c \<noteq> ''legs'') features) ''label'' = Inr lc" and
    rc: "build_tree (filter (\<lambda>r. trimmed r ''legs'' = Some ''1'') animals)
          (filter (\<lambda>c. c \<noteq> ''legs'') features) ''label'' = Inr rc" and
    t: "build_tree animals features ''label'' =
          Inr (Tree (TreeNode (Some ''legs'') (Some lc) (Some rc) []))" and
    drop: "\<forall>r\<in>set animals. trimmed r ''legs'' \<noteq> Some ''0'' \<and> trimmed r ''legs'' \<noteq> Some ''1'' \<longrightarrow>
           r \<notin> set (filter (\<lambda>r. trimmed r ''legs'' = Some ''0'') animals) \<and>
           r \<notin> set (filter (\<lambda>r. trimmed r ''legs'' = Some ''1'') animals)"
    by blast
  from lc rc bl br have "lc = dog_eel_tree" "rc = owl_cat_tree"
    by (simp_all only: l r rem sum.inject)
  with t have tree: "build_tree animals features ''label'' =
     Inr (Tree (TreeNode (Some ''legs'') (Some dog_eel_tree) (Some owl_cat_tree) []))" by simp
  from ant have "trimmed row_ant ''legs'' \<noteq> Some ''0'' \<and> trimmed row_ant ''legs'' \<noteq> Some ''1''"
    by simp
  with drop mem have "row_ant \<notin> set [row_dog, row_eel] \<and> row_ant \<notin> set [row_cat, row_owl]"
    unfolding l r by blast
  with h1 h4 ant l r bl br tree animals_not_same animals_split show ?thesis by blast
qed

text \<open>
  C6. \<open>build_tree\<close> is a total function: its recursion is accepted with the length of
  the candidate list as measure, since a chosen feature is a member of the list and is
  filtered out of it. When every row holds the label column and every candidate
  feature it returns a tree; and every tree it returns has depth (the number of nodes
  on a longest path from the root) at most the number of candidate features plus one.
\<close>

theorem build_tree_terminates_depth_bounded:
  "(has_columns rows (label_col # classifications) \<longrightarrow>
      (\<exists>t. build_tree rows classifications label_col = Inr t))
   \<and> (\<forall>t. build_tree rows classifications label_col = Inr t \<longrightarrow>
          depth t \<le> length classifications + 1)
   \<and> (\<forall>b. best_split rows classifications = Inr (Some b) \<longrightarrow>
          length (filter (\<lambda>c. c \<noteq> b) classifications) < length classifications)"
proof (intro conjI allI impI)
  assume "has_columns rows (label_col # classifications)"
  then show "\<exists>t. build_tree rows classifications label_col = Inr t"
    by (rule build_tree_total)
next
  fix t assume "build_tree rows classifications label_col = Inr t"
  then show "depth t \<le> length classifications + 1" by (rule depth_build_tree)
next
  fix b assume "best_split rows classifications = Inr (Some b)"
  then have "b \<in> set classifications" using best_split_Some by blast
  then show "length (filter (\<lambda>c. c \<noteq> b) classifications) < length classifications"
    by (simp add: length_filter_less)
qed

theorem build_tree_terminates_depth_bounded_witness:
  "has_columns animals (''label'' # features) \<and>
   build_tree animals features ''label'' = Inr animal_tree \<and>
   depth animal_tree \<le> length features + 1 \<and>
   best_split animals features = Inr (Some ''legs'') \<and>
   length (filter (\<lambda>c. c \<noteq> ''legs'') features) < length features"
  using build_tree_terminates_depth_bounded [of animals "''label''" features]
    animals_columns animals_tree animals_split
  by blast

text \<open>
  C7. In a tree returned by \<open>build_tree\<close>, a node with a child is a node whose question
  \<open>b\<close> is a candidate feature and whose two children are the trees built with the
  candidate list from which \<open>b\<close> is filtered out; and on every path from the root to a
  leaf, the questions of the nodes with children are candidate features, no two of
  them equal.
\<close>

theorem build_tree_question_once:
  assumes "build_tree rows classifications label_col = Inr t"
  shows "(\<forall>p\<in>set (paths t). distinct p \<and> set p \<subseteq> Some ` set classifications)
     \<and> (left (node_of t) \<noteq> None \<or> right (node_of t) \<noteq> None \<longrightarrow>
         (\<exists>b left_child right_child.
            t = Tree (TreeNode (Some b) (Some left_child) (Some right_child) []) \<and>
            b \<in> set classifications \<and>
            b \<notin> set (filter (\<lambda>c. c \<noteq> b) classifications) \<and>
            build_tree (filter (\<lambda>r. trimmed r b = Some ''0'') rows)
              (filter (\<lambda>c. c \<noteq> b) classifications) label_col = Inr left_child \<and>
            build_tree (filter (\<lambda>r. trimmed r b = Some ''1'') rows)
              (filter (\<lambda>c. c \<noteq> b) classifications) label_col = Inr right_child))"
proof (rule conjI)
  show "\<forall>p\<in>set (paths t). distinct p \<and> set p \<subseteq> Some ` set classifications"
    using paths_build_tree [OF assms] by blast
next
  show "left (node_of t) \<noteq> None \<or> right (node_of t) \<noteq> None \<longrightarrow>
         (\<exists>b left_child right_child.
            t = Tree (TreeNode (Some b) (Some left_child) (Some right_child) []) \<and>
            b \<in> set classifications \<and>
            b \<notin> set (filter (\<lambda>c. c \<noteq> b) classifications) \<and>
            build_tree (filter (\<lambda>r. trimmed r b = Some ''0'') rows)
              (filter (\<lambda>c. c \<noteq> b) classifications) label_col = Inr left_child \<and>
            build_tree (filter (\<lambda>r. trimmed r b = Some ''1'') rows)
              (filter (\<lambda>c. c \<noteq> b) classifications) label_col = Inr right_child)"
  proof
  assume inner: "left (node_of t) \<noteq> None \<or> right (node_of t) \<noteq> None"
  from build_tree_Inr_cases [OF assms] inner
  obtain b lc rc where b: "best_split rows classifications = Inr (Some b)"
    "build_tree (bucket rows b ''0'') (filter (\<lambda>c. c \<noteq> b) classifications) label_col = Inr lc"
    "build_tree (bucket rows b ''1'') (filter (\<lambda>c. c \<noteq> b) classifications) label_col = Inr rc"
    "t = Tree (TreeNode (Some b) (Some lc) (Some rc) [])"
    by auto
  from b(1) have "b \<in> set classifications" using best_split_Some by blast
  with b show "\<exists>b left_child right_child.
            t = Tree (TreeNode (Some b) (Some left_child) (Some right_child) []) \<and>
            b \<in> set classifications \<and>
            b \<notin> set (filter (\<lambda>c. c \<noteq> b) classifications) \<and>
            build_tree (filter (\<lambda>r. trimmed r b = Some ''0'') rows)
              (filter (\<lambda>c. c \<noteq> b) classifications) label_col = Inr left_child \<and>
            build_tree (filter (\<lambda>r. trimmed r b = Some ''1'') rows)
              (filter (\<lambda>c. c \<noteq> b) classifications) label_col = Inr right_child"
    by (auto simp: bucket_def)
  qed
qed

theorem build_tree_question_once_witness:
  "build_tree animals features ''label'' = Inr animal_tree \<and>
   paths animal_tree = [[Some ''legs'', Some ''fins''], [Some ''legs'', Some ''fins''],
                        [Some ''legs'', Some ''fur''], [Some ''legs'', Some ''fur'']] \<and>
   distinct [Some ''legs'', Some ''fur''] \<and>
   left (node_of animal_tree) \<noteq> None \<and>
   ''legs'' \<notin> set (filter (\<lambda>c. c \<noteq> ''legs'') features)"
proof -
  have p: "paths animal_tree = [[Some ''legs'', Some ''fins''], [Some ''legs'', Some ''fins''],
                        [Some ''legs'', Some ''fur''], [Some ''legs'', Some ''fur'']]"
    by (simp add: animal_tree_def leaf_def)
  have l: "left (node_of animal_tree) \<noteq> None" by (simp add: animal_tree_def)
  from build_tree_question_once [OF animals_tree] p
  have "distinct [Some ''legs'', Some ''fur'']" by simp
  with p l animals_tree show ?thesis by simp
qed

text \<open>
  C8. For the empty row list, with any candidate list and any label column,
  \<open>build_tree\<close> returns the node made by \<open>TreeNode(answers=[])\<close>: no question, no
  children, and an empty \<open>answers\<close> list.
\<close>

theorem build_tree_empty_rows:
  "build_tree [] classifications label_col = Inr (Tree (init_TreeNode None None None (Some [])))
   \<and> init_TreeNode None None None (Some []) = (TreeNode None None None [] :: tree TreeNode)"
  by (simp add: build_tree_empty)

text \<open>
  C9. In a tree returned by \<open>build_tree\<close> for a non-empty row list, every node without
  children has a non-empty \<open>answers\<close> list; so when a tree returned by \<open>build_tree\<close>
  has a node without children whose \<open>answers\<close> list is empty, the row list was empty
  and the tree is that single node.
\<close>

theorem build_tree_leaves_nonempty:
  assumes "build_tree rows classifications label_col = Inr t"
  shows "(rows \<noteq> [] \<longrightarrow> (\<forall>n\<in>set (leaves t). answers n \<noteq> []))
     \<and> (\<forall>n\<in>set (leaves t). answers n = [] \<longrightarrow>
           rows = [] \<and> t = Tree (TreeNode None None None []))"
proof -
  have ne: "\<forall>n\<in>set (leaves t). answers n \<noteq> []" if "rows \<noteq> []"
    using leaves_build_tree [OF that assms] by blast
  have "rows = [] \<and> t = Tree (TreeNode None None None [])"
    if "n \<in> set (leaves t)" "answers n = []" for n
  proof -
    from that ne have "rows = []" by blast
    with assms show ?thesis by (simp add: build_tree_empty)
  qed
  with ne show ?thesis by blast
qed

theorem build_tree_leaves_nonempty_witness:
  "build_tree animals features ''label'' = Inr animal_tree \<and> animals \<noteq> [] \<and>
   leaves animal_tree = [TreeNode None None None [''dog''], TreeNode None None None [''eel''],
                         TreeNode None None None [''owl''], TreeNode None None None [''cat'']] \<and>
   answers (TreeNode None None None [''dog''] :: tree TreeNode) \<noteq> []"
proof -
  have l: "leaves animal_tree =
      [TreeNode None None None [''dog''], TreeNode None None None [''eel''],
       TreeNode None None None [''owl''], TreeNode None None None [''cat'']]"
    by (simp add: animal_tree_def leaf_def)
  have ne: "animals \<noteq> []" by (simp add: animals_def)
  from build_tree_leaves_nonempty [OF animals_tree] ne l
  have "answers (TreeNode None None None [''dog''] :: tree TreeNode) \<noteq> []" by simp
  with l ne animals_tree show ?thesis by simp
qed

text \<open>
  C10. \<open>play_game\<close> returns the object store it was given: the \<open>question\<close>, \<open>left\<close>,
  \<open>right\<close> and \<open>answers\<close> fields of every node are as before, whatever the tree and the
  answers. The same holds after the loop of \<open>main\<close>, which plays one session after
  another on the same root for as long as the user asks for another one.
\<close>

theorem play_game_leaves_tree_unchanged:
  "objects (snd (play_game tree w)) = objects w \<and>
   objects (snd (main_loop tree w)) = objects w"
  by (simp add: play_game_objects main_loop_objects)

text \<open>
  C5. Let the question loop end at a node after \<open>k\<close> questions. Then the node's
  \<open>answers\<close> list is not empty and exactly \<open>k\<close> prompts were shown after the
  introduction. If the next answers are \<open>j\<close> times no and then yes, with \<open>j\<close> below the
  number of stored answers, \<open>play_game\<close> shows the confirmation prompts of the first
  \<open>j + 1\<close> stored answers in order, stops, and reports success with counter
  \<open>k + j + 1\<close>. If the next answers are no for every stored answer, it shows the
  confirmation prompt of every stored answer in order and reports failure with counter
  \<open>k\<close> plus the number of stored answers. A list of one answer goes through its own
  branch of the code, with the same result.
\<close>

theorem play_game_leaf_confirmation:
  assumes "question_loop tree 0 (print_line Intro w0) = (Inr (a, k), w)"
  shows "answers (objects w a) \<noteq> []
     \<and> (\<exists>qs. shown w = shown w0 @ Intro # map Prompt qs \<and> length qs = k)
     \<and> (\<forall>j rest. j < length (answers (objects w a)) \<and>
                   pending w = replicate j False @ True # rest \<longrightarrow>
           play_game tree w0 =
             (Inr (), w\<lparr>pending := rest,
                shown := shown w
                  @ map (\<lambda>e. Prompt (guess_prompt e)) (take (Suc j) (answers (objects w a)))
                  @ [Yay (k + (j + 1))]\<rparr>))
     \<and> (\<forall>rest. pending w = replicate (length (answers (objects w a))) False @ rest \<longrightarrow>
           play_game tree w0 =
             (Inr (), w\<lparr>pending := rest,
                shown := shown w
                  @ map (\<lambda>e. Prompt (guess_prompt e)) (answers (objects w a))
                  @ [WellPlayed (k + length (answers (objects w a)))]\<rparr>))"
proof -
  from question_loop_trace [OF assms]
  have ne: "answers (objects w a) \<noteq> []"
    and tr: "\<exists>qs. shown w = shown w0 @ Intro # map Prompt qs \<and> length qs = k"
    by (auto simp: is_leaf_def print_line_def)
  have pg: "play_game tree w0 = guess_phase (answers (objects w a)) k w"
    using assms by (simp add: play_game_def)
  show ?thesis
    using ne tr pg guess_phase_success [of _ "answers (objects w a)" w _ k]
      guess_phase_failure [OF ne, of w _ k]
    by simp
qed

theorem play_game_leaf_confirmation_witness:
  "question_loop (Some two_answer_tree) 0
     (print_line Intro \<lparr>objects = node_of, pending = [False, False, True], shown = []\<rparr>)
     = (Inr (leaf [''cat'', ''dog''], 1),
        \<lparr>objects = node_of, pending = [False, True], shown = [Intro, Prompt ''legs'']\<rparr>)
   \<and> play_game (Some two_answer_tree)
       \<lparr>objects = node_of, pending = [False, False, True], shown = []\<rparr>
     = (Inr (), \<lparr>objects = node_of, pending = [],
          shown = [Intro, Prompt ''legs'', Prompt ''Is your guess cat?'',
                   Prompt ''Is your guess dog?'', Yay 3]\<rparr>)"
proof -
  have q: "question_loop (Some two_answer_tree) 0
     (print_line Intro \<lparr>objects = node_of, pending = [False, False, True], shown = []\<rparr>)
     = (Inr (leaf [''cat'', ''dog''], 1),
        \<lparr>objects = node_of, pending = [False, True], shown = [Intro, Prompt ''legs'']\<rparr>)"
    by (simp add: question_loop.simps two_answer_tree_def leaf_def is_leaf_def print_line_def
        ask_yes_no_def format_question_def)
  have p: "pending \<lparr>objects = node_of, pending = [False, True], shown = [Intro, Prompt ''legs'']\<rparr>
      = replicate 1 False @ True # []" by simp
  note success = play_game_leaf_confirmation [OF q, THEN conjunct2, THEN conjunct2,
      THEN conjunct1, rule_format, of 1 "[]"]
  from success p
  have "play_game (Some two_answer_tree)
       \<lparr>objects = node_of, pending = [False, False, True], shown = []\<rparr>
     = (Inr (), \<lparr>objects = node_of, pending = [],
          shown = [Intro, Prompt ''legs'', Prompt ''Is your guess cat?'',
                   Prompt ''Is your guess dog?'', Yay 3]\<rparr>)"
    by (simp add: leaf_def guess_prompt_def strip_def isspace_def)
  with q show ?thesis by simp
qed

text \<open>
  C1. The claim asks that a node that is neither a leaf with answers nor a node with a
  question and two children end the game with the line "I couldn't make a guess."
  and no further question. For the node that \<open>build_tree\<close> returns for the empty row
  list, \<open>is_leaf\<close> is false, so the question loop is entered: the prompt \<open>None\<close> is
  shown, the answer moves to a child that is \<open>None\<close>, and the next test of the loop
  raises \<open>AttributeError\<close>. The branch of \<open>play_game\<close> that prints the line is never
  reached.
\<close>

theorem play_game_degenerate_leaf_raises:
  "build_tree [] features ''label'' = Inr (leaf []) \<and>
   play_game (Some (leaf [])) \<lparr>objects = node_of, pending = [False], shown = []\<rparr>
     = (Inl AttributeError,
        \<lparr>objects = node_of, pending = [], shown = [Intro, Prompt ''None'']\<rparr>)"
  by (simp add: build_tree_empty leaf_def play_game_def question_loop.simps is_leaf_def
      print_line_def ask_yes_no_def format_question_def)

end
